theory Spec2Isabelle
  imports Main "HOL-Library.Sublist"
begin

section \<open>Values shared by the helpers of package utils\<close>

subsection \<open>Go error values\<close>

text \<open>
  A Go \<^verbatim>\<open>error\<close> is an interface value; \<^verbatim>\<open>nil\<close> is modelled by \<open>None\<close> of
  \<open>error option\<close>. Three kinds of error value occur in \<^verbatim>\<open>utils.go\<close>: errors handed
  back by the operating system for which \<^verbatim>\<open>os.IsNotExist\<close> holds, every other error
  handed back by an external call, and the error built by \<^verbatim>\<open>fmt.Errorf\<close> in
  \<^verbatim>\<open>WithTimeout\<close>. A formatted value keeps its format string and its arguments, as
  they are passed in the source.
\<close>

datatype error =
    NotExistError string
  | ExternalError string
  | Errorf string "fmt_arg list"
and fmt_arg =
    ArgInt int
  | ArgString string
  | ArgError error
  | ArgDuration int

fun IsNotExist :: "error option \<Rightarrow> bool" where
  "IsNotExist (Some (NotExistError m)) = True"
| "IsNotExist e = False"

subsection \<open>strconv.Itoa and strconv.Atoi\<close>

text \<open>
  Go's \<^verbatim>\<open>int\<close> is taken as the 64-bit signed integer of the platforms the program is
  built for. Values are kept as HOL integers; the one place where the width matters is
  the range check of \<^verbatim>\<open>strconv.Atoi\<close>, which is written out.
\<close>

definition digit_char :: "nat \<Rightarrow> char" where
  "digit_char d = ''0123456789'' ! d"

fun dec_digits :: "nat \<Rightarrow> string" where
  "dec_digits n =
     (if n < 10 then [digit_char n] else dec_digits (n div 10) @ [digit_char (n mod 10)])"

declare dec_digits.simps [simp del]

definition Itoa :: "int \<Rightarrow> string" where
  "Itoa i = (if i < 0 then CHR ''-'' # dec_digits (nat (- i)) else dec_digits (nat i))"

datatype num_error = ErrSyntax | ErrRange

definition digit_val :: "char \<Rightarrow> nat option" where
  "digit_val c =
     (let k = (of_char c :: nat) in if 48 \<le> k \<and> k \<le> 57 then Some (k - 48) else None)"

definition maxUint64 :: nat where
  "maxUint64 = 18446744073709551615"

definition cutoff10 :: nat where
  "cutoff10 = 1844674407370955162"

definition minInt_magnitude :: nat where
  "minInt_magnitude = 9223372036854775808"

text \<open>
  The digit loop of \<^verbatim>\<open>strconv.ParseUint(s, 10, 0)\<close>: a byte that is not a decimal
  digit ends the loop with a syntax error and the value 0; an accumulator that leaves
  the unsigned 64-bit range ends it with a range error and the largest value.
  \<open>maxUint64\<close> is \<open>2 ^ 64 - 1\<close> and \<open>cutoff10\<close> is \<open>maxUint64 div 10 + 1\<close>, the
  least accumulator whose tenfold overflows.
\<close>

fun ParseUint_loop :: "nat \<Rightarrow> string \<Rightarrow> nat \<times> num_error option" where
  "ParseUint_loop n [] = (n, None)"
| "ParseUint_loop n (c # cs) =
     (case digit_val c of
        None \<Rightarrow> (0, Some ErrSyntax)
      | Some d \<Rightarrow>
          if n \<ge> cutoff10 then (maxUint64, Some ErrRange)
          else if n * 10 + d > maxUint64 then (maxUint64, Some ErrRange)
          else ParseUint_loop (n * 10 + d) cs)"

definition ParseUint :: "string \<Rightarrow> nat \<times> num_error option" where
  "ParseUint s = (if s = [] then (0, Some ErrSyntax) else ParseUint_loop 0 s)"

text \<open>
  \<^verbatim>\<open>strconv.Atoi(s)\<close>, that is \<^verbatim>\<open>ParseInt(s, 10, 0)\<close>: an optional sign, then
  \<^verbatim>\<open>ParseUint\<close>, then the check against the signed range. As in Go the value is
  returned beside the error: 0 with a syntax error, the nearest bound with a range
  error. The cutoff \<open>minInt_magnitude\<close> is \<open>2 ^ 63\<close>. (The short-input fast path of
  \<^verbatim>\<open>Atoi\<close> computes the same pair.)
\<close>

definition Atoi :: "string \<Rightarrow> int \<times> num_error option" where
  "Atoi s =
     (if s = [] then (0, Some ErrSyntax)
      else
        let neg = (hd s = CHR ''-'');
            s' = (if hd s = CHR ''+'' \<or> hd s = CHR ''-'' then tl s else s);
            cutoff = minInt_magnitude
        in (case ParseUint s' of
              (un, Some ErrSyntax) \<Rightarrow> (0, Some ErrSyntax)
            | (un, _) \<Rightarrow>
                if \<not> neg \<and> un \<ge> cutoff then (int cutoff - 1, Some ErrRange)
                else if neg \<and> un > cutoff then (- int cutoff, Some ErrRange)
                else (if neg then - int un else int un, None)))"

section \<open>The identity resolution cache\<close>

subsection \<open>The platform's user and group directory (package os/user)\<close>

record User =
  Uid :: string
  Gid :: string
  Username :: string
  Name :: string
  HomeDir :: string

record Group =
  Group_Gid :: string
  Group_Name :: string

text \<open>
  The four directory functions the cache calls. Each returns either an error or the
  entry found. The directory is a parameter of every operation, so that two calls may
  be answered by two different directories (entries come and go while the process runs).
\<close>

record identity_service =
  user_LookupId :: "string \<Rightarrow> error + User"
  user_LookupGroupId :: "string \<Rightarrow> error + Group"
  user_Lookup :: "string \<Rightarrow> error + User"
  user_LookupGroup :: "string \<Rightarrow> error + Group"

subsection \<open>Package state and effects\<close>

datatype query =
    QLookupId string
  | QLookupGroupId string
  | QLookup string
  | QLookupGroup string

datatype log_entry = Warnf string "fmt_arg list"

text \<open>
  The four package-level maps \<^verbatim>\<open>uids\<close>, \<^verbatim>\<open>gids\<close>, \<^verbatim>\<open>users\<close>, \<^verbatim>\<open>groups\<close>, and
  the two effects of the operations on the outside: the directory queries issued, in
  order, and the warnings written to the logger, in order. The operations below are the
  bodies executed between \<^verbatim>\<open>mutex.Lock()\<close> and the deferred \<^verbatim>\<open>mutex.Unlock()\<close>; one
  call runs from a state to a state.
\<close>

record state =
  uids :: "int \<rightharpoonup> string"
  gids :: "int \<rightharpoonup> string"
  users :: "string \<rightharpoonup> int"
  groups :: "string \<rightharpoonup> int"
  queries :: "query list"
  warnings :: "log_entry list"

definition init_state :: state where
  "init_state = \<lparr> uids = Map.empty, gids = Map.empty, users = Map.empty,
                  groups = Map.empty, queries = [], warnings = [] \<rparr>"

definition ask :: "query \<Rightarrow> state \<Rightarrow> state" where
  "ask q st = st\<lparr>queries := queries st @ [q]\<rparr>"

text \<open>
  Modelled from the spec: the logger (\<^verbatim>\<open>GetLogger\<close> is declared outside
  \<^verbatim>\<open>utils.go\<close>) is a sink that accepts warning messages with their formatted context
  and never affects control flow. \<^verbatim>\<open>logger.Warnf\<close> appends the message to the log.
\<close>

definition warn :: "string \<Rightarrow> fmt_arg list \<Rightarrow> state \<Rightarrow> state" where
  "warn fmt args st = st\<lparr>warnings := warnings st @ [Warnf fmt args]\<rparr>"

subsection \<open>The four operations\<close>

definition UserName :: "identity_service \<Rightarrow> state \<Rightarrow> int \<Rightarrow> string \<times> state" where
  "UserName svc st uid =
     (case uids st uid of
        Some name \<Rightarrow> (name, st)
      | None \<Rightarrow>
          let st1 = ask (QLookupId (Itoa uid)) st;
              (name, st2) =
                (case user_LookupId svc (Itoa uid) of
                   Inr u \<Rightarrow> (Username u, st1)
                 | Inl err \<Rightarrow>
                     (Itoa uid, warn ''lookup uid %d: %s'' [ArgInt uid, ArgError err] st1))
          in (name, st2\<lparr>uids := (uids st2)(uid \<mapsto> name)\<rparr>))"

definition GroupName :: "identity_service \<Rightarrow> state \<Rightarrow> int \<Rightarrow> string \<times> state" where
  "GroupName svc st gid =
     (case gids st gid of
        Some name \<Rightarrow> (name, st)
      | None \<Rightarrow>
          let st1 = ask (QLookupGroupId (Itoa gid)) st;
              (name, st2) =
                (case user_LookupGroupId svc (Itoa gid) of
                   Inr g \<Rightarrow> (Group_Name g, st1)
                 | Inl err \<Rightarrow>
                     (Itoa gid, warn ''lookup gid %d: %s'' [ArgInt gid, ArgError err] st1))
          in (name, st2\<lparr>gids := (gids st2)(gid \<mapsto> name)\<rparr>))"

definition LookupUser :: "identity_service \<Rightarrow> state \<Rightarrow> string \<Rightarrow> int \<times> state" where
  "LookupUser svc st name =
     (case users st name of
        Some u \<Rightarrow> (u, st)
      | None \<Rightarrow>
          let st1 = ask (QLookup name) st;
              (uid, st2) =
                (case user_Lookup svc name of
                   Inr u \<Rightarrow> (fst (Atoi (Uid u)), st1)
                 | Inl err \<Rightarrow>
                     (case Atoi name of
                        (g, None) \<Rightarrow> (g, st1)
                      | (g, Some e) \<Rightarrow>
                          (- 1, warn ''lookup user %s: %s'' [ArgString name, ArgError err] st1)))
          in (uid, st2\<lparr>users := (users st2)(name \<mapsto> uid)\<rparr>))"

definition LookupGroup :: "identity_service \<Rightarrow> state \<Rightarrow> string \<Rightarrow> int \<times> state" where
  "LookupGroup svc st name =
     (case groups st name of
        Some u \<Rightarrow> (u, st)
      | None \<Rightarrow>
          let st1 = ask (QLookupGroup name) st;
              (gid, st2) =
                (case user_LookupGroup svc name of
                   Inr u \<Rightarrow> (fst (Atoi (Group_Gid u)), st1)
                 | Inl err \<Rightarrow>
                     (case Atoi name of
                        (g, None) \<Rightarrow> (g, st1)
                      | (g, Some e) \<Rightarrow>
                          (- 1, warn ''lookup group %s: %s'' [ArgString name, ArgError err] st1)))
          in (gid, st2\<lparr>groups := (groups st2)(name \<mapsto> gid)\<rparr>))"

subsection \<open>Sequences of calls\<close>

text \<open>
  A call of one of the four operations, and the state left by a sequence of calls, each
  answered by the directory as it is at that moment.
\<close>

datatype call =
    CallUserName int
  | CallGroupName int
  | CallLookupUser string
  | CallLookupGroup string

fun exec :: "identity_service \<Rightarrow> call \<Rightarrow> state \<Rightarrow> state" where
  "exec svc (CallUserName uid) st = snd (UserName svc st uid)"
| "exec svc (CallGroupName gid) st = snd (GroupName svc st gid)"
| "exec svc (CallLookupUser name) st = snd (LookupUser svc st name)"
| "exec svc (CallLookupGroup name) st = snd (LookupGroup svc st name)"

fun run :: "(identity_service \<times> call) list \<Rightarrow> state \<Rightarrow> state" where
  "run [] st = st"
| "run ((svc, c) # cs) st = run cs (exec svc c st)"


subsection \<open>Parallel callers\<close>

text \<open>
  The two halves of an operation, as the source has them: the read of the operation's
  map (\<^verbatim>\<open>name, ok := uids[uid]\<close> and its three siblings), and the body executed when
  the key is absent (the directory query, the warning on failure, the write of the map).
  A result is a name or an id.
\<close>

datatype result = RName string | RId int

fun cached :: "call \<Rightarrow> state \<Rightarrow> result option" where
  "cached (CallUserName uid) st = map_option RName (uids st uid)"
| "cached (CallGroupName gid) st = map_option RName (gids st gid)"
| "cached (CallLookupUser name) st = map_option RId (users st name)"
| "cached (CallLookupGroup name) st = map_option RId (groups st name)"

fun populate :: "identity_service \<Rightarrow> call \<Rightarrow> state \<Rightarrow> result \<times> state" where
  "populate svc (CallUserName uid) st =
     (let st1 = ask (QLookupId (Itoa uid)) st;
          (name, st2) =
            (case user_LookupId svc (Itoa uid) of
               Inr u \<Rightarrow> (Username u, st1)
             | Inl err \<Rightarrow>
                 (Itoa uid, warn ''lookup uid %d: %s'' [ArgInt uid, ArgError err] st1))
      in (RName name, st2\<lparr>uids := (uids st2)(uid \<mapsto> name)\<rparr>))"
| "populate svc (CallGroupName gid) st =
     (let st1 = ask (QLookupGroupId (Itoa gid)) st;
          (name, st2) =
            (case user_LookupGroupId svc (Itoa gid) of
               Inr g \<Rightarrow> (Group_Name g, st1)
             | Inl err \<Rightarrow>
                 (Itoa gid, warn ''lookup gid %d: %s'' [ArgInt gid, ArgError err] st1))
      in (RName name, st2\<lparr>gids := (gids st2)(gid \<mapsto> name)\<rparr>))"
| "populate svc (CallLookupUser name) st =
     (let st1 = ask (QLookup name) st;
          (uid, st2) =
            (case user_Lookup svc name of
               Inr u \<Rightarrow> (fst (Atoi (Uid u)), st1)
             | Inl err \<Rightarrow>
                 (case Atoi name of
                    (g, None) \<Rightarrow> (g, st1)
                  | (g, Some e) \<Rightarrow>
                      (- 1, warn ''lookup user %s: %s'' [ArgString name, ArgError err] st1)))
      in (RId uid, st2\<lparr>users := (users st2)(name \<mapsto> uid)\<rparr>))"
| "populate svc (CallLookupGroup name) st =
     (let st1 = ask (QLookupGroup name) st;
          (gid, st2) =
            (case user_LookupGroup svc name of
               Inr u \<Rightarrow> (fst (Atoi (Group_Gid u)), st1)
             | Inl err \<Rightarrow>
                 (case Atoi name of
                    (g, None) \<Rightarrow> (g, st1)
                  | (g, Some e) \<Rightarrow>
                      (- 1, warn ''lookup group %s: %s'' [ArgString name, ArgError err] st1)))
      in (RId gid, st2\<lparr>groups := (groups st2)(name \<mapsto> gid)\<rparr>))"

text \<open>
  Where a thread stands in a call: not in a call; at \<^verbatim>\<open>mutex.Lock()\<close>; holding the
  lock, before the read of the map; holding the lock after a miss, before the query and
  the write; holding the lock with its result, before the deferred
  \<^verbatim>\<open>mutex.Unlock()\<close> and the return.
\<close>

datatype phase =
    Idle
  | Waiting call
  | Checking call
  | Populating call
  | Unlocking call result

fun inside :: "phase \<Rightarrow> bool" where
  "inside Idle = False"
| "inside (Waiting c) = False"
| "inside (Checking c) = True"
| "inside (Populating c) = True"
| "inside (Unlocking c v) = True"

text \<open>
  The process with any number of threads (numbered by naturals): the shared package
  state, the owner of \<^verbatim>\<open>mutex\<close> if it is held, the phase of every thread, and two
  records of what happened: the calls in the order in which their critical sections
  took effect, each with the directory that answered it, and the results handed back
  to the callers.
\<close>

record world =
  cache :: state
  mutex :: "nat option"
  phase_of :: "nat \<Rightarrow> phase"
  history :: "(identity_service \<times> call) list"
  returned :: "(nat \<times> call \<times> result) list"

definition init_world :: world where
  "init_world = \<lparr> cache = init_state, mutex = None, phase_of = (\<lambda>t. Idle), history = [],
                  returned = [] \<rparr>"

text \<open>
  The scheduler's choices: a thread starts a call, or a thread takes its next step,
  with the directory as it is at that moment. \<^verbatim>\<open>Lock\<close> succeeds only on a free mutex;
  a step of a thread waiting for a held mutex changes nothing.
\<close>

datatype sched_event = Arrive nat call | Step nat identity_service

fun fire :: "sched_event \<Rightarrow> world \<Rightarrow> world" where
  "fire (Arrive t c) w =
     (case phase_of w t of
        Idle \<Rightarrow> w\<lparr>phase_of := (phase_of w)(t := Waiting c)\<rparr>
      | _ \<Rightarrow> w)"
| "fire (Step t svc) w =
     (case phase_of w t of
        Idle \<Rightarrow> w
      | Waiting c \<Rightarrow>
          (case mutex w of
             None \<Rightarrow> w\<lparr>mutex := Some t, phase_of := (phase_of w)(t := Checking c)\<rparr>
           | Some owner \<Rightarrow> w)
      | Checking c \<Rightarrow>
          (case cached c (cache w) of
             Some v \<Rightarrow>
               w\<lparr>phase_of := (phase_of w)(t := Unlocking c v),
                 history := history w @ [(svc, c)]\<rparr>
           | None \<Rightarrow> w\<lparr>phase_of := (phase_of w)(t := Populating c)\<rparr>)
      | Populating c \<Rightarrow>
          (let (v, st') = populate svc c (cache w)
           in w\<lparr>cache := st', phase_of := (phase_of w)(t := Unlocking c v),
                history := history w @ [(svc, c)]\<rparr>)
      | Unlocking c v \<Rightarrow>
          w\<lparr>mutex := None, phase_of := (phase_of w)(t := Idle),
            returned := returned w @ [(t, c, v)]\<rparr>)"

fun world_run :: "sched_event list \<Rightarrow> world \<Rightarrow> world" where
  "world_run [] w = w"
| "world_run (e # es) w = world_run es (fire e w)"

text \<open>
  The same process with \<^verbatim>\<open>Lock\<close> never blocking, for comparison: every step sees
  the mutex as free.
\<close>

definition fire_unguarded :: "sched_event \<Rightarrow> world \<Rightarrow> world" where
  "fire_unguarded e w = fire e (w\<lparr>mutex := None\<rparr>)"

fun world_run_unguarded :: "sched_event list \<Rightarrow> world \<Rightarrow> world" where
  "world_run_unguarded [] w = w"
| "world_run_unguarded (e # es) w = world_run_unguarded es (fire_unguarded e w)"


section \<open>Peripheral helpers\<close>

subsection \<open>Exists\<close>

record FileInfo =
  fi_Name :: string
  fi_Size :: int
  fi_IsDir :: bool

text \<open>\<^verbatim>\<open>os.Stat\<close> is a parameter: it answers with the file's entry or with an error.\<close>

definition Exists :: "(string \<Rightarrow> error + FileInfo) \<Rightarrow> string \<Rightarrow> bool" where
  "Exists os_Stat path =
     (let err = (case os_Stat path of Inl e \<Rightarrow> Some e | Inr info \<Rightarrow> None)
      in err = None \<or> \<not> IsNotExist err)"

subsection \<open>GetLocalIp\<close>




subsection \<open>WithTimeout\<close>

text \<open>
  \<^verbatim>\<open>WithTimeout\<close> runs two goroutines over shared data, so it is modelled by its
  steps. The caller creates the channel \<^verbatim>\<open>done\<close> (buffer 1) and the timer, starts
  the goroutine, evaluates the \<^verbatim>\<open>select\<close>, and in the \<^verbatim>\<open>done\<close> case stops the
  timer, in the timer case assigns the timeout error to \<^verbatim>\<open>err\<close>; then it returns
  \<^verbatim>\<open>err\<close>. The goroutine executes \<^verbatim>\<open>err = f()\<close> and then \<^verbatim>\<open>done <- 1\<close>. Of
  \<^verbatim>\<open>f\<close> the caller observes whether it returns and with which error value.
\<close>

datatype func = Returns "error option" | Blocks

text \<open>
  The caller's position: before the \<^verbatim>\<open>go\<close> statement; before the \<^verbatim>\<open>select\<close>; in
  the \<^verbatim>\<open>done\<close> case before \<^verbatim>\<open>t.Stop()\<close>; in the timer case before the
  assignment; at \<^verbatim>\<open>return err\<close>; returned with a value. The goroutine's position:
  not started; executing \<^verbatim>\<open>f\<close>; before the send; finished.
\<close>

datatype main_pc = MGo | MSelect | MDoneCase | MTimerCase | MReturn | MReturned "error option"

datatype go_pc = GNotStarted | GRunning | GSend | GExit

text \<open>
  The shared data: the variable \<^verbatim>\<open>err\<close>, whether \<^verbatim>\<open>done\<close> and \<^verbatim>\<open>t.C\<close> hold a
  value, whether the timer was stopped; the two positions; and the clock, in
  nanoseconds since the timer was created. Three fields record what happened: when
  \<^verbatim>\<open>f\<close> returned, when the timer fired, and whether the \<^verbatim>\<open>select\<close> received from
  \<^verbatim>\<open>done\<close>.
\<close>

record wt_config =
  now :: nat
  err_var :: "error option"
  done_chan :: bool
  timer_chan :: bool
  timer_stopped :: bool
  main_at :: main_pc
  go_at :: go_pc
  returned_at :: "nat option"
  fired_at :: "nat option"
  took_done :: bool


text \<open>
  What the scheduler and the clock may do next: time passes; the caller takes a step;
  the goroutine takes a step; the runtime delivers the timer. The timer is delivered
  no earlier than \<open>timeout\<close> after its creation (at once for a non-positive
  duration), and not after \<^verbatim>\<open>Stop\<close>. A \<^verbatim>\<open>select\<close> with no ready channel waits: the
  step changes nothing. With one ready channel it takes that case; with both ready Go
  picks one of them itself, which is the Boolean of the caller's step. The send on
  \<^verbatim>\<open>done\<close> never blocks, since the buffer holds the one value ever sent.
\<close>

datatype wt_event = Tick nat | MainStep bool | GoStep | TimerFire

fun wt_step :: "func \<Rightarrow> int \<Rightarrow> wt_event \<Rightarrow> wt_config \<Rightarrow> wt_config" where
  "wt_step f timeout (Tick n) c = c\<lparr>now := now c + n\<rparr>"
| "wt_step f timeout TimerFire c =
     (if \<not> timer_stopped c \<and> fired_at c = None \<and> timeout \<le> int (now c)
      then c\<lparr>timer_chan := True, fired_at := Some (now c)\<rparr>
      else c)"
| "wt_step f timeout GoStep c =
     (case go_at c of
        GRunning \<Rightarrow>
          (case f of
             Returns e \<Rightarrow> c\<lparr>err_var := e, returned_at := Some (now c), go_at := GSend\<rparr>
           | Blocks \<Rightarrow> c)
      | GSend \<Rightarrow> c\<lparr>done_chan := True, go_at := GExit\<rparr>
      | _ \<Rightarrow> c)"
| "wt_step f timeout (MainStep pick_done) c =
     (case main_at c of
        MGo \<Rightarrow> c\<lparr>main_at := MSelect, go_at := GRunning\<rparr>
      | MSelect \<Rightarrow>
          if done_chan c \<and> (pick_done \<or> \<not> timer_chan c)
          then c\<lparr>done_chan := False, took_done := True, main_at := MDoneCase\<rparr>
          else if timer_chan c then c\<lparr>timer_chan := False, main_at := MTimerCase\<rparr>
          else c
      | MDoneCase \<Rightarrow> c\<lparr>timer_stopped := True, main_at := MReturn\<rparr>
      | MTimerCase \<Rightarrow>
          c\<lparr>err_var := Some (Errorf ''timeout after %s'' [ArgDuration timeout]),
            main_at := MReturn\<rparr>
      | MReturn \<Rightarrow> c\<lparr>main_at := MReturned (err_var c)\<rparr>
      | MReturned r \<Rightarrow> c)"




subsection \<open>RemovePassword\<close>

text \<open>
  \<^verbatim>\<open>strings.Index(s, substr)\<close>: the index of the first instance of \<open>substr\<close> in
  \<open>s\<close>, or \<open>-1\<close> when there is none.
\<close>

fun Index_from :: "nat \<Rightarrow> string \<Rightarrow> string \<Rightarrow> int" where
  "Index_from i [] sub = (if sub = [] then int i else - 1)"
| "Index_from i (c # cs) sub =
     (if prefix sub (c # cs) then int i else Index_from (Suc i) cs sub)"

definition Index :: "string \<Rightarrow> string \<Rightarrow> int" where
  "Index s sub = Index_from 0 s sub"

text \<open>
  The slice expressions \<^verbatim>\<open>s[i:]\<close> and \<^verbatim>\<open>s[:j]\<close>. Go panics when the bound is
  outside \<open>0 .. len(s)\<close>; the panic is \<open>None\<close>.
\<close>

definition slice_from :: "string \<Rightarrow> int \<Rightarrow> string option" where
  "slice_from s i = (if 0 \<le> i \<and> i \<le> int (length s) then Some (drop (nat i) s) else None)"

definition slice_to :: "string \<Rightarrow> int \<Rightarrow> string option" where
  "slice_to s j = (if 0 \<le> j \<and> j \<le> int (length s) then Some (take (nat j) s) else None)"

definition RemovePassword :: "string \<Rightarrow> string option" where
  "RemovePassword uri =
     (let p = Index uri ''@'' in
      if p < 0 then Some uri
      else
        let sp0 = Index uri ''://'' + 3;
            sp = (if sp0 = 2 then 0 else sp0)
        in (case slice_from uri sp of
              None \<Rightarrow> None
            | Some rest \<Rightarrow>
                let cp = Index rest '':'' in
                if cp < 0 \<or> sp + cp > p then Some uri
                else
                  (case (slice_to uri (sp + cp), slice_from uri p) of
                     (Some front, Some back) \<Rightarrow> Some (front @ '':****'' @ back)
                   | _ \<Rightarrow> None)))"

text \<open>
  The two positions the description of \<^verbatim>\<open>RemovePassword\<close> speaks of: the index of the
  first \<open>@\<close> (the length of the text before it), and the index just after the first
  \<open>://\<close>, or \<open>0\<close> for a string without one.
\<close>

definition first_at :: "string \<Rightarrow> nat" where
  "first_at uri = length (takeWhile (\<lambda>c. c \<noteq> CHR ''@'') uri)"

definition scheme_end :: "string \<Rightarrow> nat" where
  "scheme_end uri = (let i = Index uri ''://'' in if i < 0 then 0 else nat i + 3)"

section \<open>Auxiliary notions for the proofs\<close>

text \<open>
  A cache agrees with a directory when every stored value is the value the operation
  computes for that key on an empty cache with that directory.
\<close>

definition cache_agrees :: "identity_service \<Rightarrow> state \<Rightarrow> bool" where
  "cache_agrees svc st \<longleftrightarrow>
     (\<forall>uid n. uids st uid = Some n \<longrightarrow> n = fst (UserName svc init_state uid)) \<and>
     (\<forall>gid n. gids st gid = Some n \<longrightarrow> n = fst (GroupName svc init_state gid)) \<and>
     (\<forall>name v. users st name = Some v \<longrightarrow> v = fst (LookupUser svc init_state name)) \<and>
     (\<forall>name v. groups st name = Some v \<longrightarrow> v = fst (LookupGroup svc init_state name))"

subsection \<open>Concrete inputs used to instantiate the theorems\<close>

definition example_alice :: User where
  "example_alice = \<lparr> Uid = ''1000'', Gid = ''50'', Username = ''alice'', Name = ''Alice'',
                      HomeDir = ''/home/alice'' \<rparr>"

definition example_staff :: Group where
  "example_staff = \<lparr> Group_Gid = ''50'', Group_Name = ''staff'' \<rparr>"

text \<open>A directory with the single user alice (uid 1000) and the single group staff (gid 50).\<close>

definition example_directory :: identity_service where
  "example_directory =
     \<lparr> user_LookupId = (\<lambda>i. if i = ''1000'' then Inr example_alice
                              else Inl (ExternalError ''user: unknown userid'')),
       user_LookupGroupId = (\<lambda>i. if i = ''50'' then Inr example_staff
                              else Inl (ExternalError ''group: unknown groupid'')),
       user_Lookup = (\<lambda>n. if n = ''alice'' then Inr example_alice
                              else Inl (ExternalError ''user: unknown user'')),
       user_LookupGroup = (\<lambda>n. if n = ''staff'' then Inr example_staff
                              else Inl (ExternalError ''group: unknown group'')) \<rparr>"

text \<open>A directory that knows nobody.\<close>

definition empty_directory :: identity_service where
  "empty_directory =
     \<lparr> user_LookupId = (\<lambda>i. Inl (ExternalError ''user: unknown userid'')),
       user_LookupGroupId = (\<lambda>i. Inl (ExternalError ''group: unknown groupid'')),
       user_Lookup = (\<lambda>n. Inl (ExternalError ''user: unknown user'')),
       user_LookupGroup = (\<lambda>n. Inl (ExternalError ''group: unknown group'')) \<rparr>"

text \<open>A state in which each of the four maps already holds one entry.\<close>

definition example_state :: state where
  "example_state =
     \<lparr> uids = [1000 \<mapsto> ''alice''], gids = [50 \<mapsto> ''staff''],
       users = [''alice'' \<mapsto> 1000], groups = [''staff'' \<mapsto> 50],
       queries = [QLookupId ''1000'', QLookupGroupId ''50'', QLookup ''alice'',
                  QLookupGroup ''staff''],
       warnings = [] \<rparr>"

definition example_stat :: "string \<Rightarrow> error + FileInfo" where
  "example_stat path =
     (if path = ''/missing'' then Inl (NotExistError ''stat /missing: no such file or directory'')
      else if path = ''/secret/x'' then Inl (ExternalError ''stat /secret/x: permission denied'')
      else Inr \<lparr> fi_Name = path, fi_Size = 0, fi_IsDir = False \<rparr>)"



text \<open>
  Two threads, numbered 2 and 3, asking for the name of uid 1000 at the same time:
  thread 2 gets the lock and misses, thread 3 waits. The longer schedule lets both
  calls complete.
\<close>

definition example_schedule :: "sched_event list" where
  "example_schedule =
     [Arrive 2 (CallUserName 1000), Arrive 3 (CallUserName 1000),
      Step 2 example_directory, Step 3 example_directory, Step 2 example_directory]"

definition example_schedule_complete :: "sched_event list" where
  "example_schedule_complete =
     example_schedule @
     [Step 2 example_directory, Step 3 example_directory, Step 2 example_directory,
      Step 3 empty_directory, Step 3 empty_directory, Step 3 empty_directory]"

text \<open>The same start with \<^verbatim>\<open>Lock\<close> never blocking.\<close>

definition overlapping_schedule :: "sched_event list" where
  "overlapping_schedule =
     [Arrive 2 (CallUserName 1000), Arrive 3 (CallUserName 1000),
      Step 2 example_directory, Step 3 example_directory]"




section \<open>Properties of the identity resolution cache\<close>

subsection \<open>Cache hits and cache misses\<close>

lemmas op_defs =
  UserName_def GroupName_def LookupUser_def LookupGroup_def ask_def warn_def Let_def

lemma init_state_fields [simp]:
  "uids init_state = Map.empty" "gids init_state = Map.empty"
  "users init_state = Map.empty" "groups init_state = Map.empty"
  "queries init_state = []" "warnings init_state = []"
  by (simp_all add: init_state_def)

lemma UserName_hit: "uids st uid = Some n \<Longrightarrow> UserName svc st uid = (n, st)"
  by (simp add: UserName_def)

lemma GroupName_hit: "gids st gid = Some n \<Longrightarrow> GroupName svc st gid = (n, st)"
  by (simp add: GroupName_def)

lemma LookupUser_hit: "users st name = Some v \<Longrightarrow> LookupUser svc st name = (v, st)"
  by (simp add: LookupUser_def)

lemma LookupGroup_hit: "groups st name = Some v \<Longrightarrow> LookupGroup svc st name = (v, st)"
  by (simp add: LookupGroup_def)

lemma UserName_miss_value:
  "uids st uid = None \<Longrightarrow>
   fst (UserName svc st uid) =
     (case user_LookupId svc (Itoa uid) of Inr u \<Rightarrow> Username u | Inl err \<Rightarrow> Itoa uid)"
  by (simp add: op_defs split: sum.splits)

lemma UserName_miss_state:
  "uids st uid = None \<Longrightarrow>
   uids (snd (UserName svc st uid)) = (uids st)(uid \<mapsto> fst (UserName svc st uid)) \<and>
   gids (snd (UserName svc st uid)) = gids st \<and>
   users (snd (UserName svc st uid)) = users st \<and>
   groups (snd (UserName svc st uid)) = groups st \<and>
   queries (snd (UserName svc st uid)) = queries st @ [QLookupId (Itoa uid)]"
  by (simp add: op_defs split: sum.splits)

lemma GroupName_miss_value:
  "gids st gid = None \<Longrightarrow>
   fst (GroupName svc st gid) =
     (case user_LookupGroupId svc (Itoa gid) of Inr g \<Rightarrow> Group_Name g | Inl err \<Rightarrow> Itoa gid)"
  by (simp add: op_defs split: sum.splits)

lemma GroupName_miss_state:
  "gids st gid = None \<Longrightarrow>
   gids (snd (GroupName svc st gid)) = (gids st)(gid \<mapsto> fst (GroupName svc st gid)) \<and>
   uids (snd (GroupName svc st gid)) = uids st \<and>
   users (snd (GroupName svc st gid)) = users st \<and>
   groups (snd (GroupName svc st gid)) = groups st \<and>
   queries (snd (GroupName svc st gid)) = queries st @ [QLookupGroupId (Itoa gid)]"
  by (simp add: op_defs split: sum.splits)

lemma LookupUser_miss_value:
  "users st name = None \<Longrightarrow>
   fst (LookupUser svc st name) =
     (case user_Lookup svc name of
        Inr u \<Rightarrow> fst (Atoi (Uid u))
      | Inl err \<Rightarrow> (case snd (Atoi name) of None \<Rightarrow> fst (Atoi name) | Some e \<Rightarrow> - 1))"
  by (simp add: op_defs split: sum.splits prod.splits option.splits)

lemma LookupUser_miss_state:
  "users st name = None \<Longrightarrow>
   users (snd (LookupUser svc st name)) = (users st)(name \<mapsto> fst (LookupUser svc st name)) \<and>
   uids (snd (LookupUser svc st name)) = uids st \<and>
   gids (snd (LookupUser svc st name)) = gids st \<and>
   groups (snd (LookupUser svc st name)) = groups st \<and>
   queries (snd (LookupUser svc st name)) = queries st @ [QLookup name]"
  by (simp add: op_defs split: sum.splits prod.splits option.splits)

lemma LookupGroup_miss_value:
  "groups st name = None \<Longrightarrow>
   fst (LookupGroup svc st name) =
     (case user_LookupGroup svc name of
        Inr g \<Rightarrow> fst (Atoi (Group_Gid g))
      | Inl err \<Rightarrow> (case snd (Atoi name) of None \<Rightarrow> fst (Atoi name) | Some e \<Rightarrow> - 1))"
  by (simp add: op_defs split: sum.splits prod.splits option.splits)

lemma LookupGroup_miss_state:
  "groups st name = None \<Longrightarrow>
   groups (snd (LookupGroup svc st name)) = (groups st)(name \<mapsto> fst (LookupGroup svc st name)) \<and>
   uids (snd (LookupGroup svc st name)) = uids st \<and>
   gids (snd (LookupGroup svc st name)) = gids st \<and>
   users (snd (LookupGroup svc st name)) = users st \<and>
   queries (snd (LookupGroup svc st name)) = queries st @ [QLookupGroup name]"
  by (simp add: op_defs split: sum.splits prod.splits option.splits)

text \<open>An operation never touches the three maps that are not its own.\<close>

lemma UserName_other_maps:
  "gids (snd (UserName svc st uid)) = gids st \<and>
   users (snd (UserName svc st uid)) = users st \<and>
   groups (snd (UserName svc st uid)) = groups st"
  by (cases "uids st uid") (simp_all add: UserName_hit UserName_miss_state)

lemma GroupName_other_maps:
  "uids (snd (GroupName svc st gid)) = uids st \<and>
   users (snd (GroupName svc st gid)) = users st \<and>
   groups (snd (GroupName svc st gid)) = groups st"
  by (cases "gids st gid") (simp_all add: GroupName_hit GroupName_miss_state)

lemma LookupUser_other_maps:
  "uids (snd (LookupUser svc st name)) = uids st \<and>
   gids (snd (LookupUser svc st name)) = gids st \<and>
   groups (snd (LookupUser svc st name)) = groups st"
  by (cases "users st name") (simp_all add: LookupUser_hit LookupUser_miss_state)

lemma LookupGroup_other_maps:
  "uids (snd (LookupGroup svc st name)) = uids st \<and>
   gids (snd (LookupGroup svc st name)) = gids st \<and>
   users (snd (LookupGroup svc st name)) = users st"
  by (cases "groups st name") (simp_all add: LookupGroup_hit LookupGroup_miss_state)

text \<open>An operation keeps every entry its own map already holds.\<close>

lemma UserName_keeps: "uids st k = Some v \<Longrightarrow> uids (snd (UserName svc st uid)) k = Some v"
  by (cases "uids st uid") (auto simp: UserName_hit UserName_miss_state)

lemma GroupName_keeps: "gids st k = Some v \<Longrightarrow> gids (snd (GroupName svc st gid)) k = Some v"
  by (cases "gids st gid") (auto simp: GroupName_hit GroupName_miss_state)

lemma LookupUser_keeps:
  "users st k = Some v \<Longrightarrow> users (snd (LookupUser svc st name)) k = Some v"
  by (cases "users st name") (auto simp: LookupUser_hit LookupUser_miss_state)

lemma LookupGroup_keeps:
  "groups st k = Some v \<Longrightarrow> groups (snd (LookupGroup svc st name)) k = Some v"
  by (cases "groups st name") (auto simp: LookupGroup_hit LookupGroup_miss_state)

lemma exec_keeps:
  "(uids st i = Some n \<longrightarrow> uids (exec svc c st) i = Some n) \<and>
   (gids st j = Some m \<longrightarrow> gids (exec svc c st) j = Some m) \<and>
   (users st k = Some v \<longrightarrow> users (exec svc c st) k = Some v) \<and>
   (groups st l = Some w \<longrightarrow> groups (exec svc c st) l = Some w)"
  by (cases c)
     (simp_all add: UserName_keeps GroupName_keeps LookupUser_keeps LookupGroup_keeps
        UserName_other_maps GroupName_other_maps LookupUser_other_maps LookupGroup_other_maps)

lemma run_keeps:
  "(uids st i = Some n \<longrightarrow> uids (run cs st) i = Some n) \<and>
   (gids st j = Some m \<longrightarrow> gids (run cs st) j = Some m) \<and>
   (users st k = Some v \<longrightarrow> users (run cs st) k = Some v) \<and>
   (groups st l = Some w \<longrightarrow> groups (run cs st) l = Some w)"
proof (induction cs arbitrary: st)
  case Nil
  show ?case by simp
next
  case (Cons sc cs)
  obtain svc c where sc: "sc = (svc, c)" by (cases sc)
  show ?case
    using exec_keeps [of st i n svc c j m k v l w] Cons.IH [of "exec svc c st"]
    by (simp add: sc)
qed

subsection \<open>Calling an operation twice\<close>

lemma UserName_twice:
  "UserName svc' (snd (UserName svc st uid)) uid = UserName svc st uid \<and>
   (queries (snd (UserName svc st uid)) = queries st \<or>
    queries (snd (UserName svc st uid)) = queries st @ [QLookupId (Itoa uid)])"
proof (cases "uids st uid")
  case None
  then have "uids (snd (UserName svc st uid)) uid = Some (fst (UserName svc st uid))"
    by (simp add: UserName_miss_state)
  then have "UserName svc' (snd (UserName svc st uid)) uid =
      (fst (UserName svc st uid), snd (UserName svc st uid))"
    by (rule UserName_hit)
  with None show ?thesis by (simp add: UserName_miss_state)
next
  case (Some n)
  then show ?thesis by (simp add: UserName_hit)
qed

lemma GroupName_twice:
  "GroupName svc' (snd (GroupName svc st gid)) gid = GroupName svc st gid \<and>
   (queries (snd (GroupName svc st gid)) = queries st \<or>
    queries (snd (GroupName svc st gid)) = queries st @ [QLookupGroupId (Itoa gid)])"
proof (cases "gids st gid")
  case None
  then have "gids (snd (GroupName svc st gid)) gid = Some (fst (GroupName svc st gid))"
    by (simp add: GroupName_miss_state)
  then have "GroupName svc' (snd (GroupName svc st gid)) gid =
      (fst (GroupName svc st gid), snd (GroupName svc st gid))"
    by (rule GroupName_hit)
  with None show ?thesis by (simp add: GroupName_miss_state)
next
  case (Some n)
  then show ?thesis by (simp add: GroupName_hit)
qed

lemma LookupUser_twice:
  "LookupUser svc' (snd (LookupUser svc st name)) name = LookupUser svc st name \<and>
   (queries (snd (LookupUser svc st name)) = queries st \<or>
    queries (snd (LookupUser svc st name)) = queries st @ [QLookup name])"
proof (cases "users st name")
  case None
  then have "users (snd (LookupUser svc st name)) name = Some (fst (LookupUser svc st name))"
    by (simp add: LookupUser_miss_state)
  then have "LookupUser svc' (snd (LookupUser svc st name)) name =
      (fst (LookupUser svc st name), snd (LookupUser svc st name))"
    by (rule LookupUser_hit)
  with None show ?thesis by (simp add: LookupUser_miss_state)
next
  case (Some n)
  then show ?thesis by (simp add: LookupUser_hit)
qed

lemma LookupGroup_twice:
  "LookupGroup svc' (snd (LookupGroup svc st name)) name = LookupGroup svc st name \<and>
   (queries (snd (LookupGroup svc st name)) = queries st \<or>
    queries (snd (LookupGroup svc st name)) = queries st @ [QLookupGroup name])"
proof (cases "groups st name")
  case None
  then have "groups (snd (LookupGroup svc st name)) name = Some (fst (LookupGroup svc st name))"
    by (simp add: LookupGroup_miss_state)
  then have "LookupGroup svc' (snd (LookupGroup svc st name)) name =
      (fst (LookupGroup svc st name), snd (LookupGroup svc st name))"
    by (rule LookupGroup_hit)
  with None show ?thesis by (simp add: LookupGroup_miss_state)
next
  case (Some n)
  then show ?thesis by (simp add: LookupGroup_hit)
qed

subsection \<open>States reached from the empty cache with one directory\<close>

lemma UserName_miss_fresh:
  "uids st uid = None \<Longrightarrow> fst (UserName svc st uid) = fst (UserName svc init_state uid)"
  by (simp add: UserName_miss_value)

lemma GroupName_miss_fresh:
  "gids st gid = None \<Longrightarrow> fst (GroupName svc st gid) = fst (GroupName svc init_state gid)"
  by (simp add: GroupName_miss_value)

lemma LookupUser_miss_fresh:
  "users st name = None \<Longrightarrow> fst (LookupUser svc st name) = fst (LookupUser svc init_state name)"
  by (simp add: LookupUser_miss_value)

lemma LookupGroup_miss_fresh:
  "groups st name = None \<Longrightarrow>
   fst (LookupGroup svc st name) = fst (LookupGroup svc init_state name)"
  by (simp add: LookupGroup_miss_value)

lemma cache_agrees_init: "cache_agrees svc init_state"
  by (simp add: cache_agrees_def)

lemma cache_agrees_UserName:
  assumes "cache_agrees svc st"
  shows "cache_agrees svc (snd (UserName svc st uid))"
proof (cases "uids st uid")
  case None
  note fresh = UserName_miss_fresh [OF None, of svc]
  from assms None show ?thesis
    by (auto simp: cache_agrees_def UserName_miss_state fresh)
next
  case (Some n)
  with assms show ?thesis by (simp add: UserName_hit)
qed

lemma cache_agrees_GroupName:
  assumes "cache_agrees svc st"
  shows "cache_agrees svc (snd (GroupName svc st gid))"
proof (cases "gids st gid")
  case None
  note fresh = GroupName_miss_fresh [OF None, of svc]
  from assms None show ?thesis
    by (auto simp: cache_agrees_def GroupName_miss_state fresh)
next
  case (Some n)
  with assms show ?thesis by (simp add: GroupName_hit)
qed

lemma cache_agrees_LookupUser:
  assumes "cache_agrees svc st"
  shows "cache_agrees svc (snd (LookupUser svc st name))"
proof (cases "users st name")
  case None
  note fresh = LookupUser_miss_fresh [OF None, of svc]
  from assms None show ?thesis
    by (auto simp: cache_agrees_def LookupUser_miss_state fresh)
next
  case (Some n)
  with assms show ?thesis by (simp add: LookupUser_hit)
qed

lemma cache_agrees_LookupGroup:
  assumes "cache_agrees svc st"
  shows "cache_agrees svc (snd (LookupGroup svc st name))"
proof (cases "groups st name")
  case None
  note fresh = LookupGroup_miss_fresh [OF None, of svc]
  from assms None show ?thesis
    by (auto simp: cache_agrees_def LookupGroup_miss_state fresh)
next
  case (Some n)
  with assms show ?thesis by (simp add: LookupGroup_hit)
qed

lemma cache_agrees_exec: "cache_agrees svc st \<Longrightarrow> cache_agrees svc (exec svc c st)"
  by (cases c)
     (simp_all add: cache_agrees_UserName cache_agrees_GroupName cache_agrees_LookupUser
        cache_agrees_LookupGroup)

lemma cache_agrees_run:
  "cache_agrees svc st \<Longrightarrow> cache_agrees svc (run (map (Pair svc) cs) st)"
  by (induction cs arbitrary: st) (simp_all add: cache_agrees_exec)

lemma LookupUser_agrees_value:
  assumes "cache_agrees svc st"
  shows "fst (LookupUser svc st name) = fst (LookupUser svc init_state name)"
proof (cases "users st name")
  case None
  then show ?thesis by (rule LookupUser_miss_fresh)
next
  case (Some v)
  with assms have "v = fst (LookupUser svc init_state name)"
    by (simp add: cache_agrees_def)
  with Some show ?thesis by (simp add: LookupUser_hit)
qed

lemma LookupUser_reached_value:
  "fst (LookupUser svc (run (map (Pair svc) cs) init_state) name) =
     (case user_Lookup svc name of
        Inr u \<Rightarrow> fst (Atoi (Uid u))
      | Inl err \<Rightarrow> (case snd (Atoi name) of None \<Rightarrow> fst (Atoi name) | Some e \<Rightarrow> - 1))"
  using LookupUser_agrees_value [OF cache_agrees_run [OF cache_agrees_init]]
  by (simp add: LookupUser_miss_value)

lemma LookupUser_settled_value:
  assumes "st = run (map (Pair svc) cs) init_state \<or> users st name = None"
  shows "fst (LookupUser svc st name) =
     (case user_Lookup svc name of
        Inr u \<Rightarrow> fst (Atoi (Uid u))
      | Inl err \<Rightarrow> (case snd (Atoi name) of None \<Rightarrow> fst (Atoi name) | Some e \<Rightarrow> - 1))"
  using assms
proof
  assume "st = run (map (Pair svc) cs) init_state"
  then show ?thesis by (simp add: LookupUser_reached_value)
next
  assume "users st name = None"
  then show ?thesis by (rule LookupUser_miss_value)
qed

subsection \<open>The conversions between integers and decimal strings\<close>

lemmas atoi_defs =
  Atoi_def ParseUint_def digit_val_def maxUint64_def cutoff10_def minInt_magnitude_def

lemmas itoa_defs = Itoa_def digit_char_def dec_digits.simps

lemma numeric_constants:
  "maxUint64 = 2 ^ 64 - 1 \<and> cutoff10 = maxUint64 div 10 + 1 \<and> minInt_magnitude = 2 ^ 63"
  by (simp add: maxUint64_def cutoff10_def minInt_magnitude_def)

lemma Atoi_1000: "Atoi ''1000'' = (1000, None)"
  by (simp add: atoi_defs)

lemma Atoi_ghost: "Atoi ''ghost'' = (0, Some ErrSyntax)"
  by (simp add: atoi_defs)

lemma Atoi_alice: "Atoi ''alice'' = (0, Some ErrSyntax)"
  by (simp add: atoi_defs)

lemma Itoa_99999: "Itoa 99999 = ''99999''"
  by (simp add: itoa_defs)

lemma Itoa_1000: "Itoa 1000 = ''1000''"
  by (simp add: itoa_defs)

lemma Itoa_50: "Itoa 50 = ''50''"
  by (simp add: itoa_defs)

text \<open>
  The two conversions fit together: the decimal string of every 64-bit integer is read
  back by \<^verbatim>\<open>Atoi\<close> as that integer, and whatever \<^verbatim>\<open>Atoi\<close> returns lies in the
  64-bit range.
\<close>

lemma digit_val_digit_char: "d < 10 \<Longrightarrow> digit_val (digit_char d) = Some d"
proof -
  assume "d < 10"
  then have "d = 0 \<or> d = 1 \<or> d = 2 \<or> d = 3 \<or> d = 4 \<or> d = 5 \<or> d = 6 \<or> d = 7 \<or> d = 8 \<or> d = 9"
    by arith
  then show ?thesis
    by (elim disjE) (simp_all add: digit_val_def digit_char_def)
qed

lemma digit_char_not_sign: "d < 10 \<Longrightarrow> digit_char d \<noteq> CHR ''-'' \<and> digit_char d \<noteq> CHR ''+''"
proof -
  assume "d < 10"
  then have "d = 0 \<or> d = 1 \<or> d = 2 \<or> d = 3 \<or> d = 4 \<or> d = 5 \<or> d = 6 \<or> d = 7 \<or> d = 8 \<or> d = 9"
    by arith
  then show ?thesis
    by (elim disjE) (simp_all add: digit_char_def)
qed

lemma dec_digits_nonempty: "dec_digits n \<noteq> []"
  by (subst dec_digits.simps) simp

lemma hd_dec_digits: "hd (dec_digits n) \<noteq> CHR ''-'' \<and> hd (dec_digits n) \<noteq> CHR ''+''"
proof (induction n rule: dec_digits.induct)
  case (1 n)
  show ?case
  proof (cases "n < 10")
    case True
    then show ?thesis
      by (subst dec_digits.simps, subst (2) dec_digits.simps) (simp add: digit_char_not_sign)
  next
    case False
    with 1 show ?thesis
      by (subst dec_digits.simps, subst (2) dec_digits.simps) (simp add: dec_digits_nonempty)
  qed
qed

lemma ParseUint_loop_snoc:
  "d < 10 \<Longrightarrow> ParseUint_loop a ds = (m, None) \<Longrightarrow> m * 10 + d \<le> maxUint64 \<Longrightarrow>
   ParseUint_loop a (ds @ [digit_char d]) = (m * 10 + d, None)"
proof (induction ds arbitrary: a)
  case Nil
  then have "a * 10 + d \<le> maxUint64" by simp
  then have "\<not> cutoff10 \<le> a" by (simp add: maxUint64_def cutoff10_def)
  with Nil show ?case by (simp add: digit_val_digit_char)
next
  case (Cons c cs)
  then show ?case
    by (auto split: option.splits if_splits)
qed

lemma ParseUint_loop_dec_digits:
  "n \<le> maxUint64 \<Longrightarrow> ParseUint_loop 0 (dec_digits n) = (n, None)"
proof (induction n rule: dec_digits.induct)
  case (1 n)
  show ?case
  proof (cases "n < 10")
    case True
    then have "dec_digits n = [digit_char n]" by (subst dec_digits.simps) simp
    with True show ?thesis
      by (simp add: digit_val_digit_char cutoff10_def maxUint64_def)
  next
    case False
    then have eq: "dec_digits n = dec_digits (n div 10) @ [digit_char (n mod 10)]"
      by (subst dec_digits.simps) simp
    have "n div 10 \<le> maxUint64" using "1.prems" by simp
    with 1 False have ih: "ParseUint_loop 0 (dec_digits (n div 10)) = (n div 10, None)"
      by simp
    have "ParseUint_loop 0 (dec_digits (n div 10) @ [digit_char (n mod 10)]) =
        (n div 10 * 10 + n mod 10, None)"
      using ih "1.prems" by (intro ParseUint_loop_snoc) simp_all
    then show ?thesis by (simp add: eq)
  qed
qed

lemma Atoi_Itoa:
  assumes "- 9223372036854775808 \<le> n" "n \<le> 9223372036854775807"
  shows "Atoi (Itoa n) = (n, None)"
proof (cases "n < 0")
  case True
  let ?m = "nat (- n)"
  have m: "?m \<le> 9223372036854775808" using assms by simp
  then have "?m \<le> maxUint64" by (simp add: maxUint64_def)
  then have "ParseUint (dec_digits ?m) = (?m, None)"
    by (simp add: ParseUint_def dec_digits_nonempty ParseUint_loop_dec_digits)
  with True m show ?thesis
    by (simp add: Atoi_def Itoa_def minInt_magnitude_def)
next
  case False
  let ?m = "nat n"
  have m: "?m < 9223372036854775808" using assms by simp
  then have "?m \<le> maxUint64" by (simp add: maxUint64_def)
  then have "ParseUint (dec_digits ?m) = (?m, None)"
    by (simp add: ParseUint_def dec_digits_nonempty ParseUint_loop_dec_digits)
  with False m show ?thesis
    by (simp add: Atoi_def Itoa_def minInt_magnitude_def dec_digits_nonempty hd_dec_digits)
qed

lemma ParseUint_loop_bound: "ParseUint_loop a s = (m, e) \<Longrightarrow> a \<le> maxUint64 \<Longrightarrow> m \<le> maxUint64"
  by (induction a s rule: ParseUint_loop.induct) (auto split: option.splits if_splits)

lemma Atoi_range: "- 9223372036854775808 \<le> fst (Atoi s) \<and> fst (Atoi s) \<le> 9223372036854775807"
  by (auto simp: Atoi_def minInt_magnitude_def Let_def split: prod.splits option.splits num_error.splits)


subsection \<open>The claims about the cache\<close>

text \<open>
  Claim C1. For a uid that is not in \<^verbatim>\<open>uids\<close> yet, \<^verbatim>\<open>UserName\<close> asks the directory once
  (for the decimal string of the uid), returns the entry's user name when the lookup
  succeeds and the decimal string of the uid when it fails, and stores what it returns
  under the uid. A second call with the same uid, whatever the directory answers by
  then, returns the same value and leaves the state as it is: no entry of the query log
  is added.
\<close>

theorem UserName_resolves_and_caches:
  assumes "uids st uid = None"
  shows "fst (UserName svc st uid) =
           (case user_LookupId svc (Itoa uid) of Inr u \<Rightarrow> Username u | Inl err \<Rightarrow> Itoa uid) \<and>
         queries (snd (UserName svc st uid)) = queries st @ [QLookupId (Itoa uid)] \<and>
         uids (snd (UserName svc st uid)) uid = Some (fst (UserName svc st uid)) \<and>
         UserName svc' (snd (UserName svc st uid)) uid =
           (fst (UserName svc st uid), snd (UserName svc st uid))"
proof -
  have stored: "uids (snd (UserName svc st uid)) uid = Some (fst (UserName svc st uid))"
    using assms by (simp add: UserName_miss_state)
  show ?thesis
    using assms stored UserName_hit [OF stored]
    by (simp add: UserName_miss_value UserName_miss_state)
qed

theorem UserName_resolves_and_caches_witness:
  "uids init_state 99999 = None \<and>
   fst (UserName empty_directory init_state 99999) = ''99999'' \<and>
   queries (snd (UserName empty_directory init_state 99999)) = [QLookupId ''99999''] \<and>
   uids (snd (UserName empty_directory init_state 99999)) 99999 = Some ''99999'' \<and>
   UserName example_directory (snd (UserName empty_directory init_state 99999)) 99999 =
     (''99999'', snd (UserName empty_directory init_state 99999))"
proof -
  have miss: "uids init_state 99999 = None" by simp
  have answer:
    "user_LookupId empty_directory ''99999'' = Inl (ExternalError ''user: unknown userid'')"
    by (simp add: empty_directory_def)
  show ?thesis
    using miss
      UserName_resolves_and_caches
        [OF miss, where svc = empty_directory and svc' = example_directory]
    by (simp add: Itoa_99999 answer prod_eq_iff)
qed

text \<open>
  Claim C2. Each of the four operations is idempotent. Called twice with the same
  input, the second call returns what the first returned, and over the two calls the
  query log grows by at most the one directory lookup for that input. The directory of
  the second call may differ from that of the first.
\<close>

theorem resolution_idempotent:
  "(let first = UserName svc st uid; second = UserName svc' (snd first) uid
    in fst second = fst first \<and>
       (queries (snd second) = queries st \<or>
        queries (snd second) = queries st @ [QLookupId (Itoa uid)])) \<and>
   (let first = GroupName svc st gid; second = GroupName svc' (snd first) gid
    in fst second = fst first \<and>
       (queries (snd second) = queries st \<or>
        queries (snd second) = queries st @ [QLookupGroupId (Itoa gid)])) \<and>
   (let first = LookupUser svc st name; second = LookupUser svc' (snd first) name
    in fst second = fst first \<and>
       (queries (snd second) = queries st \<or>
        queries (snd second) = queries st @ [QLookup name])) \<and>
   (let first = LookupGroup svc st gname; second = LookupGroup svc' (snd first) gname
    in fst second = fst first \<and>
       (queries (snd second) = queries st \<or>
        queries (snd second) = queries st @ [QLookupGroup gname]))"
  using UserName_twice [of svc' svc st uid] GroupName_twice [of svc' svc st gid]
    LookupUser_twice [of svc' svc st name] LookupGroup_twice [of svc' svc st gname]
  by (simp add: Let_def)

theorem resolution_idempotent_witness:
  "(let first = UserName example_directory init_state 1000;
        second = UserName empty_directory (snd first) 1000
    in fst second = fst first \<and>
       (queries (snd second) = queries init_state \<or>
        queries (snd second) = queries init_state @ [QLookupId (Itoa 1000)])) \<and>
   (let first = LookupUser example_directory init_state ''ghost'';
        second = LookupUser empty_directory (snd first) ''ghost''
    in fst second = fst first \<and>
       (queries (snd second) = queries init_state \<or>
        queries (snd second) = queries init_state @ [QLookup ''ghost'']))"
  using resolution_idempotent
    [where svc = example_directory and svc' = empty_directory and st = init_state
       and uid = 1000 and name = "''ghost''"]
  by simp

text \<open>
  Claim C5. The four operations have no error result: their results are a string or an
  integer, beside the new state. For every input, every state and every answer of the
  directory, failures included, the value returned is the following. The name lookups
  return the cached name, or the directory's name, or the decimal string of the id when
  the directory fails. The id lookups return the cached id, or the number
  \<^verbatim>\<open>strconv.Atoi\<close> gives for the id string of the directory's entry (its error is
  discarded), or, when the directory fails, the name read as a decimal integer and
  \<open>-1\<close> when it is not one.
\<close>

theorem resolution_total:
  "fst (UserName svc st uid) =
     (case uids st uid of
        Some n \<Rightarrow> n
      | None \<Rightarrow>
          (case user_LookupId svc (Itoa uid) of Inr u \<Rightarrow> Username u | Inl err \<Rightarrow> Itoa uid)) \<and>
   fst (GroupName svc st gid) =
     (case gids st gid of
        Some n \<Rightarrow> n
      | None \<Rightarrow>
          (case user_LookupGroupId svc (Itoa gid) of
             Inr g \<Rightarrow> Group_Name g
           | Inl err \<Rightarrow> Itoa gid)) \<and>
   fst (LookupUser svc st name) =
     (case users st name of
        Some v \<Rightarrow> v
      | None \<Rightarrow>
          (case user_Lookup svc name of
             Inr u \<Rightarrow> fst (Atoi (Uid u))
           | Inl err \<Rightarrow> (case snd (Atoi name) of None \<Rightarrow> fst (Atoi name) | Some e \<Rightarrow> - 1))) \<and>
   fst (LookupGroup svc st gname) =
     (case groups st gname of
        Some v \<Rightarrow> v
      | None \<Rightarrow>
          (case user_LookupGroup svc gname of
             Inr g \<Rightarrow> fst (Atoi (Group_Gid g))
           | Inl err \<Rightarrow> (case snd (Atoi gname) of None \<Rightarrow> fst (Atoi gname) | Some e \<Rightarrow> - 1)))"
proof (intro conjI)
  show "fst (UserName svc st uid) =
     (case uids st uid of
        Some n \<Rightarrow> n
      | None \<Rightarrow>
          (case user_LookupId svc (Itoa uid) of Inr u \<Rightarrow> Username u | Inl err \<Rightarrow> Itoa uid))"
    by (cases "uids st uid") (simp_all add: UserName_hit UserName_miss_value)
  show "fst (GroupName svc st gid) =
     (case gids st gid of
        Some n \<Rightarrow> n
      | None \<Rightarrow>
          (case user_LookupGroupId svc (Itoa gid) of
             Inr g \<Rightarrow> Group_Name g
           | Inl err \<Rightarrow> Itoa gid))"
    by (cases "gids st gid") (simp_all add: GroupName_hit GroupName_miss_value)
  show "fst (LookupUser svc st name) =
     (case users st name of
        Some v \<Rightarrow> v
      | None \<Rightarrow>
          (case user_Lookup svc name of
             Inr u \<Rightarrow> fst (Atoi (Uid u))
           | Inl err \<Rightarrow> (case snd (Atoi name) of None \<Rightarrow> fst (Atoi name) | Some e \<Rightarrow> - 1)))"
    by (cases "users st name") (simp_all add: LookupUser_hit LookupUser_miss_value)
  show "fst (LookupGroup svc st gname) =
     (case groups st gname of
        Some v \<Rightarrow> v
      | None \<Rightarrow>
          (case user_LookupGroup svc gname of
             Inr g \<Rightarrow> fst (Atoi (Group_Gid g))
           | Inl err \<Rightarrow> (case snd (Atoi gname) of None \<Rightarrow> fst (Atoi gname) | Some e \<Rightarrow> - 1)))"
    by (cases "groups st gname") (simp_all add: LookupGroup_hit LookupGroup_miss_value)
qed

theorem resolution_total_witness:
  "fst (UserName empty_directory init_state 99999) = ''99999'' \<and>
   fst (GroupName empty_directory init_state 50) = ''50'' \<and>
   fst (LookupUser empty_directory init_state ''ghost'') = - 1 \<and>
   fst (LookupGroup empty_directory init_state ''1000'') = 1000"
  using resolution_total
    [where svc = empty_directory and st = init_state and uid = 99999 and gid = 50
       and name = "''ghost''" and gname = "''1000''"]
  by (simp add: empty_directory_def Itoa_99999 Itoa_50 Atoi_ghost Atoi_1000)

text \<open>
  Claim C6. Once a key of one of the four maps holds a value, no sequence of calls of
  the four operations changes that value, whatever the directory answers during those
  calls. An operation called with a key its map already holds leaves the whole state
  as it is: a map is written only on a cache miss.
\<close>

theorem cache_entries_immutable:
  "(uids st i = Some n \<longrightarrow> uids (run cs st) i = Some n) \<and>
   (gids st j = Some m \<longrightarrow> gids (run cs st) j = Some m) \<and>
   (users st k = Some v \<longrightarrow> users (run cs st) k = Some v) \<and>
   (groups st l = Some w \<longrightarrow> groups (run cs st) l = Some w) \<and>
   (uids st uid \<noteq> None \<longrightarrow> snd (UserName svc st uid) = st) \<and>
   (gids st gid \<noteq> None \<longrightarrow> snd (GroupName svc st gid) = st) \<and>
   (users st name \<noteq> None \<longrightarrow> snd (LookupUser svc st name) = st) \<and>
   (groups st gname \<noteq> None \<longrightarrow> snd (LookupGroup svc st gname) = st)"
  using run_keeps [of st i n cs j m k v l w]
  by (auto simp: UserName_hit GroupName_hit LookupUser_hit LookupGroup_hit)

theorem cache_entries_immutable_witness:
  "uids example_state 1000 = Some ''alice'' \<and>
   gids example_state 50 = Some ''staff'' \<and>
   users example_state ''alice'' = Some 1000 \<and>
   groups example_state ''staff'' = Some 50 \<and>
   (let st' = run [(empty_directory, CallUserName 1000), (empty_directory, CallUserName 7),
                   (empty_directory, CallLookupUser ''alice''),
                   (example_directory, CallLookupGroup ''wheel''),
                   (empty_directory, CallGroupName 50)] example_state
    in uids st' 1000 = Some ''alice'' \<and> gids st' 50 = Some ''staff'' \<and>
       users st' ''alice'' = Some 1000 \<and> groups st' ''staff'' = Some 50) \<and>
   snd (UserName empty_directory example_state 1000) = example_state \<and>
   snd (GroupName empty_directory example_state 50) = example_state \<and>
   snd (LookupUser empty_directory example_state ''alice'') = example_state \<and>
   snd (LookupGroup empty_directory example_state ''staff'') = example_state"
proof -
  have held:
    "uids example_state 1000 = Some ''alice''" "gids example_state 50 = Some ''staff''"
    "users example_state ''alice'' = Some 1000" "groups example_state ''staff'' = Some 50"
    by (simp_all add: example_state_def)
  show ?thesis
    using held cache_entries_immutable
      [where st = example_state and i = 1000 and n = "''alice''" and j = 50
         and m = "''staff''" and k = "''alice''" and v = 1000 and l = "''staff''" and w = 50
         and uid = 1000 and gid = 50 and name = "''alice''" and gname = "''staff''"
         and svc = empty_directory
         and cs = "[(empty_directory, CallUserName 1000), (empty_directory, CallUserName 7),
                   (empty_directory, CallLookupUser ''alice''),
                   (example_directory, CallLookupGroup ''wheel''),
                   (empty_directory, CallGroupName 50)]"]
    unfolding Let_def by blast
qed

text \<open>
  Claim C3. A name that the directory does not resolve to a user and that
  \<^verbatim>\<open>strconv.Atoi\<close> reads as a decimal integer (an optional sign and decimal digits,
  within the 64-bit range) makes \<^verbatim>\<open>LookupUser\<close> return that integer. This holds in
  every state reached from the empty cache by calls answered by that directory, and in
  every state whose \<^verbatim>\<open>users\<close> map does not hold the name yet. In particular, when the
  directory has the user alice with uid 1000 and knows neither a user 1000 nor a user
  ghost, then after any calls answered by it \<^verbatim>\<open>LookupUser\<close> returns 1000 for alice,
  1000 for the name 1000, and \<open>-1\<close> for ghost.
\<close>

theorem LookupUser_numeric_name:
  "((st = run (map (Pair svc) cs) init_state \<or> users st name = None) \<and>
    user_Lookup svc name = Inl err \<and> Atoi name = (n, None) \<longrightarrow>
      fst (LookupUser svc st name) = n) \<and>
   (user_Lookup svc ''alice'' = Inr u \<and> Uid u = ''1000'' \<and>
    user_Lookup svc ''1000'' = Inl e1 \<and> user_Lookup svc ''ghost'' = Inl e2 \<longrightarrow>
      fst (LookupUser svc (run (map (Pair svc) cs) init_state) ''alice'') = 1000 \<and>
      fst (LookupUser svc (run (map (Pair svc) cs) init_state) ''1000'') = 1000 \<and>
      fst (LookupUser svc (run (map (Pair svc) cs) init_state) ''ghost'') = - 1)"
proof (intro conjI impI)
  assume a: "(st = run (map (Pair svc) cs) init_state \<or> users st name = None) \<and>
    user_Lookup svc name = Inl err \<and> Atoi name = (n, None)"
  then have "st = run (map (Pair svc) cs) init_state \<or> users st name = None" by simp
  from LookupUser_settled_value [OF this] a show "fst (LookupUser svc st name) = n"
    by simp
next
  assume a: "user_Lookup svc ''alice'' = Inr u \<and> Uid u = ''1000'' \<and>
    user_Lookup svc ''1000'' = Inl e1 \<and> user_Lookup svc ''ghost'' = Inl e2"
  then show "fst (LookupUser svc (run (map (Pair svc) cs) init_state) ''alice'') = 1000"
    by (simp add: LookupUser_reached_value Atoi_1000)
  from a show "fst (LookupUser svc (run (map (Pair svc) cs) init_state) ''1000'') = 1000"
    by (simp add: LookupUser_reached_value Atoi_1000)
  from a show "fst (LookupUser svc (run (map (Pair svc) cs) init_state) ''ghost'') = - 1"
    by (simp add: LookupUser_reached_value Atoi_ghost)
qed

theorem LookupUser_numeric_name_witness:
  "user_Lookup example_directory ''1000'' = Inl (ExternalError ''user: unknown user'') \<and>
   Atoi ''1000'' = (1000, None) \<and>
   users example_state ''1000'' = None \<and>
   fst (LookupUser example_directory example_state ''1000'') = 1000 \<and>
   user_Lookup example_directory ''alice'' = Inr example_alice \<and>
   Uid example_alice = ''1000'' \<and>
   user_Lookup example_directory ''ghost'' = Inl (ExternalError ''user: unknown user'') \<and>
   (let st = run (map (Pair example_directory)
                    [CallLookupUser ''ghost'', CallUserName 1000, CallLookupUser ''1000''])
                 init_state
    in fst (LookupUser example_directory st ''alice'') = 1000 \<and>
       fst (LookupUser example_directory st ''1000'') = 1000 \<and>
       fst (LookupUser example_directory st ''ghost'') = - 1)"
proof -
  have facts:
    "user_Lookup example_directory ''1000'' = Inl (ExternalError ''user: unknown user'')"
    "user_Lookup example_directory ''alice'' = Inr example_alice"
    "Uid example_alice = ''1000''"
    "user_Lookup example_directory ''ghost'' = Inl (ExternalError ''user: unknown user'')"
    "users example_state ''1000'' = None"
    by (simp_all add: example_directory_def example_alice_def example_state_def)
  show ?thesis
    using facts Atoi_1000
      LookupUser_numeric_name
        [where svc = example_directory and st = example_state and name = "''1000''"
           and n = 1000 and err = "ExternalError ''user: unknown user''"
           and u = example_alice
           and ?e1.0 = "ExternalError ''user: unknown user''"
           and ?e2.0 = "ExternalError ''user: unknown user''"
           and cs = "[CallLookupUser ''ghost'', CallUserName 1000, CallLookupUser ''1000'']"]
    unfolding Let_def by blast
qed

text \<open>
  Claim C4. A name that the directory does not resolve and that \<^verbatim>\<open>strconv.Atoi\<close>
  rejects makes \<^verbatim>\<open>LookupUser\<close> return \<open>-1\<close>, and \<open>-1\<close> is what \<^verbatim>\<open>users\<close> holds
  for the name afterwards. This holds in every state reached from the empty cache by
  calls answered by that directory, and in every state whose \<^verbatim>\<open>users\<close> map does not
  hold the name yet. A second call with the same name, whatever the directory answers
  by then, returns \<open>-1\<close> and leaves the state as it is: the query log does not grow.
\<close>

theorem LookupUser_unresolvable:
  assumes "st = run (map (Pair svc) cs) init_state \<or> users st name = None"
    and "user_Lookup svc name = Inl err"
    and "snd (Atoi name) = Some e"
  shows "fst (LookupUser svc st name) = - 1 \<and>
         users (snd (LookupUser svc st name)) name = Some (- 1) \<and>
         LookupUser svc' (snd (LookupUser svc st name)) name =
           (- 1, snd (LookupUser svc st name)) \<and>
         queries (snd (LookupUser svc' (snd (LookupUser svc st name)) name)) =
           queries (snd (LookupUser svc st name))"
proof -
  have val: "fst (LookupUser svc st name) = - 1"
    using LookupUser_settled_value [OF assms(1)] assms(2,3) by simp
  have stored: "users (snd (LookupUser svc st name)) name = Some (- 1)"
  proof (cases "users st name")
    case None
    then show ?thesis using val by (simp add: LookupUser_miss_state)
  next
    case (Some v)
    then show ?thesis using val by (simp add: LookupUser_hit)
  qed
  show ?thesis
    using val stored LookupUser_hit [OF stored, of svc'] by simp
qed

theorem LookupUser_unresolvable_witness:
  "user_Lookup example_directory ''ghost'' = Inl (ExternalError ''user: unknown user'') \<and>
   snd (Atoi ''ghost'') = Some ErrSyntax \<and>
   (let st = run (map (Pair example_directory) [CallLookupUser ''alice'', CallGroupName 50])
                 init_state
    in fst (LookupUser example_directory st ''ghost'') = - 1 \<and>
       users (snd (LookupUser example_directory st ''ghost'')) ''ghost'' = Some (- 1) \<and>
       LookupUser empty_directory (snd (LookupUser example_directory st ''ghost'')) ''ghost'' =
         (- 1, snd (LookupUser example_directory st ''ghost''))) \<and>
   users example_state ''ghost'' = None \<and>
   fst (LookupUser example_directory example_state ''ghost'') = - 1"
proof -
  have facts:
    "user_Lookup example_directory ''ghost'' = Inl (ExternalError ''user: unknown user'')"
    "snd (Atoi ''ghost'') = Some ErrSyntax"
    by (simp_all add: example_directory_def Atoi_ghost)
  have miss: "users example_state ''ghost'' = None"
    by (simp add: example_state_def)
  show ?thesis
    using facts miss
      LookupUser_unresolvable
        [OF disjI1 [OF refl] facts, where svc' = empty_directory
           and cs = "[CallLookupUser ''alice'', CallGroupName 50]"]
      LookupUser_unresolvable [OF disjI2 [OF miss] facts, where svc' = empty_directory]
    unfolding Let_def by blast
qed



subsection \<open>Parallel callers and the lock\<close>



lemma populate_value:
  "cached c st = None \<Longrightarrow>
   fst (populate svc c st) =
     (case c of
        CallUserName uid \<Rightarrow> RName (fst (UserName svc st uid))
      | CallGroupName gid \<Rightarrow> RName (fst (GroupName svc st gid))
      | CallLookupUser name \<Rightarrow> RId (fst (LookupUser svc st name))
      | CallLookupGroup name \<Rightarrow> RId (fst (LookupGroup svc st name)))"
  by (cases c) (simp_all add: op_defs split: sum.splits prod.splits option.splits)













text \<open>
  Both calls of the example complete: thread 2 queries the directory once and returns
  alice, thread 3 then finds the entry and returns alice without a query of its own.
\<close>

lemma populate_alice:
  "populate example_directory (CallUserName 1000) init_state =
     (RName ''alice'',
      init_state\<lparr>queries := [QLookupId ''1000''], uids := [1000 \<mapsto> ''alice'']\<rparr>)"
  by (simp add: ask_def Let_def Itoa_1000 example_directory_def example_alice_def init_state_def)

lemma example_schedule_completes:
  "returned (world_run example_schedule_complete init_world) =
     [(2, CallUserName 1000, RName ''alice''), (3, CallUserName 1000, RName ''alice'')] \<and>
   queries (cache (world_run example_schedule_complete init_world)) = [QLookupId ''1000''] \<and>
   mutex (world_run example_schedule_complete init_world) = None"
  by (simp add: example_schedule_complete_def example_schedule_def init_world_def populate_alice
      del: populate.simps)

text \<open>Were \<^verbatim>\<open>Lock\<close> never to block, both threads would be inside at once.\<close>

lemma unguarded_threads_overlap:
  "inside (phase_of (world_run_unguarded overlapping_schedule init_world) 2) \<and>
   inside (phase_of (world_run_unguarded overlapping_schedule init_world) 3)"
  by (simp add: overlapping_schedule_def fire_unguarded_def init_world_def)

section \<open>Properties of the peripheral helpers\<close>

subsection \<open>GetLocalIp and WithTimeout\<close>










text \<open>
  A caller that evaluates the \<^verbatim>\<open>select\<close> when \<^verbatim>\<open>done\<close> holds a value and the
  timer has not been delivered takes the \<^verbatim>\<open>done\<close> case, whatever the pick.
\<close>

lemma select_before_timer_takes_done:
  "main_at c = MSelect \<Longrightarrow> done_chan c \<Longrightarrow> \<not> timer_chan c \<Longrightarrow>
   took_done (wt_step f timeout (MainStep pick_done) c)"
  by simp





subsection \<open>Exists\<close>

text \<open>
  Claim C9. \<^verbatim>\<open>Exists\<close> returns false exactly when \<^verbatim>\<open>os.Stat\<close> fails with an error
  for which \<^verbatim>\<open>os.IsNotExist\<close> holds. It returns true when the stat succeeds, and also
  when the stat fails with any other error, a permission error for instance.
\<close>

theorem Exists_false_only_when_not_exist:
  "(\<not> Exists os_Stat path \<longleftrightarrow> (\<exists>e. os_Stat path = Inl e \<and> IsNotExist (Some e))) \<and>
   (os_Stat path = Inr info \<longrightarrow> Exists os_Stat path) \<and>
   (os_Stat path = Inl e' \<and> \<not> IsNotExist (Some e') \<longrightarrow> Exists os_Stat path)"
  by (cases "os_Stat path") (simp_all add: Exists_def)

theorem Exists_false_only_when_not_exist_witness:
  "\<not> Exists example_stat ''/missing'' \<and>
   example_stat ''/etc'' = Inr \<lparr> fi_Name = ''/etc'', fi_Size = 0, fi_IsDir = False \<rparr> \<and>
   Exists example_stat ''/etc'' \<and>
   example_stat ''/secret/x'' = Inl (ExternalError ''stat /secret/x: permission denied'') \<and>
   \<not> IsNotExist (Some (ExternalError ''stat /secret/x: permission denied'')) \<and>
   Exists example_stat ''/secret/x''"
proof -
  have stat:
    "example_stat ''/missing'' =
       Inl (NotExistError ''stat /missing: no such file or directory'')"
    "example_stat ''/etc'' = Inr \<lparr> fi_Name = ''/etc'', fi_Size = 0, fi_IsDir = False \<rparr>"
    "example_stat ''/secret/x'' = Inl (ExternalError ''stat /secret/x: permission denied'')"
    by (simp_all add: example_stat_def)
  have kinds:
    "IsNotExist (Some (NotExistError ''stat /missing: no such file or directory''))"
    "\<not> IsNotExist (Some (ExternalError ''stat /secret/x: permission denied''))"
    by simp_all
  show ?thesis
    using stat kinds
      Exists_false_only_when_not_exist [where os_Stat = example_stat and path = "''/missing''"]
      Exists_false_only_when_not_exist
        [where os_Stat = example_stat and path = "''/etc''"
           and info = "\<lparr> fi_Name = ''/etc'', fi_Size = 0, fi_IsDir = False \<rparr>"]
      Exists_false_only_when_not_exist
        [where os_Stat = example_stat and path = "''/secret/x''"
           and e' = "ExternalError ''stat /secret/x: permission denied''"]
    by blast
qed

subsection \<open>RemovePassword\<close>

lemma first_occurrence:
  assumes "c \<in> set xs"
  shows "length (takeWhile (\<lambda>x. x \<noteq> c) xs) < length xs \<and>
         xs ! length (takeWhile (\<lambda>x. x \<noteq> c) xs) = c \<and>
         (\<forall>j < length (takeWhile (\<lambda>x. x \<noteq> c) xs). xs ! j \<noteq> c)"
  using assms
proof (induction xs)
  case Nil
  then show ?case by simp
next
  case (Cons x xs)
  show ?case
  proof (cases "x = c")
    case True
    then show ?thesis by simp
  next
    case False
    with Cons.prems have "c \<in> set xs" by simp
    from Cons.IH [OF this] False show ?thesis
      by (auto simp: nth_Cons split: nat.splits)
  qed
qed

text \<open>\<^verbatim>\<open>Index\<close> with a one-byte pattern finds the first occurrence of that byte.\<close>

lemma Index_from_char:
  "Index_from i s [c] =
     (if c \<in> set s then int i + int (length (takeWhile (\<lambda>x. x \<noteq> c) s)) else - 1)"
  by (induction s arbitrary: i) auto

lemma Index_char:
  "Index s [c] = (if c \<in> set s then int (length (takeWhile (\<lambda>x. x \<noteq> c) s)) else - 1)"
  by (simp add: Index_def Index_from_char)

text \<open>The result of \<^verbatim>\<open>Index\<close> is \<open>-1\<close> or a position at which the pattern fits.\<close>

lemma Index_from_range:
  "Index_from i s sub = - 1 \<or>
   (\<exists>k. Index_from i s sub = int (i + k) \<and> k + length sub \<le> length s)"
proof (induction s arbitrary: i)
  case Nil
  then show ?case by simp
next
  case (Cons c cs)
  show ?case
  proof (cases "prefix sub (c # cs)")
    case True
    then have "length sub \<le> length (c # cs)" by (rule prefix_length_le)
    with True show ?thesis by (intro disjI2 exI [of _ 0]) simp
  next
    case False
    from Cons.IH [of "Suc i"] show ?thesis
    proof
      assume "Index_from (Suc i) cs sub = - 1"
      with False show ?thesis by simp
    next
      assume "\<exists>k. Index_from (Suc i) cs sub = int (Suc i + k) \<and> k + length sub \<le> length cs"
      then obtain k
        where "Index_from (Suc i) cs sub = int (Suc i + k)" "k + length sub \<le> length cs"
        by blast
      with False show ?thesis by (intro disjI2 exI [of _ "Suc k"]) simp
    qed
  qed
qed

lemma Index_range:
  "Index s sub = - 1 \<or> (\<exists>k. Index s sub = int k \<and> k + length sub \<le> length s)"
  using Index_from_range [of 0 s sub] by (simp add: Index_def)

text \<open>
  \<^verbatim>\<open>Index\<close> answers \<open>-1\<close> only when the pattern fits at no position, and otherwise
  answers the first position at which it fits.
\<close>

lemma Index_from_found:
  "Index_from i s sub = int (i + n) \<Longrightarrow>
   n \<le> length s \<and> prefix sub (drop n s) \<and> (\<forall>m < n. \<not> prefix sub (drop m s))"
proof (induction s arbitrary: i n)
  case Nil
  then show ?case by (auto split: if_splits)
next
  case (Cons c cs)
  show ?case
  proof (cases "prefix sub (c # cs)")
    case True
    with Cons.prems have "n = 0" by simp
    with True show ?thesis by simp
  next
    case False
    with Cons.prems have rec: "Index_from (Suc i) cs sub = int (i + n)" by simp
    from Index_from_range [of "Suc i" cs sub] rec have "n \<noteq> 0"
      by (cases n) auto
    then obtain n' where n: "n = Suc n'" by (cases n) auto
    with rec have "Index_from (Suc i) cs sub = int (Suc i + n')" by simp
    from Cons.IH [OF this] False n show ?thesis
      by (auto simp: less_Suc_eq_0_disj)
  qed
qed

lemma Index_from_none:
  "Index_from i s sub = - 1 \<Longrightarrow> \<forall>m \<le> length s. \<not> prefix sub (drop m s)"
proof (induction s arbitrary: i)
  case Nil
  then show ?case by (auto split: if_splits)
next
  case (Cons c cs)
  then have np: "\<not> prefix sub (c # cs)" and rec: "Index_from (Suc i) cs sub = - 1"
    by (auto split: if_splits)
  from Cons.IH [OF rec] np show ?case
    by (auto simp: le_Suc_eq drop_Cons split: nat.splits)
qed

lemma Index_first_instance:
  "(Index s sub = - 1 \<longrightarrow> (\<forall>m \<le> length s. \<not> prefix sub (drop m s))) \<and>
   (Index s sub = int n \<longrightarrow>
      n \<le> length s \<and> prefix sub (drop n s) \<and> (\<forall>m < n. \<not> prefix sub (drop m s)))"
  using Index_from_none [of 0 s sub] Index_from_found [of 0 s sub n]
  by (simp add: Index_def)

lemma scheme_end_le: "scheme_end uri \<le> length uri"
  using Index_range [of uri "''://''"] by (auto simp: scheme_end_def)

text \<open>The adjustment \<^verbatim>\<open>if sp == 2 { sp = 0 }\<close> yields the position after the scheme.\<close>

lemma scheme_offset:
  "(if Index uri ''://'' + 3 = 2 then 0 else Index uri ''://'' + 3) = int (scheme_end uri)"
  using Index_range [of uri "''://''"] by (auto simp: scheme_end_def)

lemma first_at_Index:
  "CHR ''@'' \<in> set uri \<Longrightarrow> Index uri ''@'' = int (first_at uri)"
  by (simp add: Index_char first_at_def)

lemma RemovePassword_no_at: "CHR ''@'' \<notin> set uri \<Longrightarrow> RemovePassword uri = Some uri"
  by (simp add: RemovePassword_def Index_char)

lemma RemovePassword_at:
  assumes "CHR ''@'' \<in> set uri"
  shows "RemovePassword uri =
     (let rest = drop (scheme_end uri) uri;
          k = scheme_end uri + length (takeWhile (\<lambda>x. x \<noteq> CHR '':'') rest)
      in if CHR '':'' \<notin> set rest \<or> k > first_at uri then Some uri
         else Some (take k uri @ '':****'' @ drop (first_at uri) uri))"
proof -
  let ?sp = "scheme_end uri" and ?p = "first_at uri"
  let ?rest = "drop ?sp uri"
  let ?n = "length (takeWhile (\<lambda>x. x \<noteq> CHR '':'') ?rest)"
  have p: "Index uri ''@'' = int ?p"
    using assms by (rule first_at_Index)
  have p_lt: "?p < length uri"
    using first_occurrence [OF assms] by (simp add: first_at_def)
  have sl: "slice_from uri (int ?sp) = Some ?rest"
    by (simp add: slice_from_def scheme_end_le)
  have rear: "slice_from uri (int ?p) = Some (drop ?p uri)"
    using p_lt by (simp add: slice_from_def)
  have step: "RemovePassword uri =
      (if Index ?rest '':'' < 0 \<or> int ?sp + Index ?rest '':'' > int ?p then Some uri
       else (case slice_to uri (int ?sp + Index ?rest '':'') of
               Some front \<Rightarrow> Some (front @ '':****'' @ drop ?p uri)
             | None \<Rightarrow> None))"
    unfolding RemovePassword_def Let_def p scheme_offset
    by (simp add: sl rear split: option.splits)
  show ?thesis
  proof (cases "CHR '':'' \<in> set ?rest")
    case False
    then have "Index ?rest '':'' = - 1" by (simp add: Index_char)
    with False show ?thesis by (simp add: step Let_def)
  next
    case True
    then have cp: "Index ?rest '':'' = int ?n" by (simp add: Index_char)
    have "?n \<le> length ?rest" by (rule length_takeWhile_le)
    then have "?sp + ?n \<le> length uri" using scheme_end_le [of uri] by simp
    then have front: "slice_to uri (int ?sp + int ?n) = Some (take (?sp + ?n) uri)"
      by (simp add: slice_to_def nat_add_distrib)
    from True show ?thesis
      by (simp add: step cp front Let_def)
  qed
qed

text \<open>No slice expression of \<^verbatim>\<open>RemovePassword\<close> is ever out of range.\<close>

lemma RemovePassword_returns: "\<exists>r. RemovePassword uri = Some r"
  by (cases "CHR ''@'' \<in> set uri") (simp_all add: RemovePassword_no_at RemovePassword_at Let_def)

text \<open>
  Claim C10. A string without \<open>@\<close> is returned unchanged. A string with \<open>@\<close> in
  which no \<open>:\<close> stands between the end of the scheme separator and the first \<open>@\<close> is
  returned unchanged. Otherwise, with \<open>i\<close> the position of the first \<open>:\<close> after the
  scheme separator, the result is the string up to that \<open>:\<close>, then \<open>:****\<close>, then
  the string from the first \<open>@\<close> on: the text between the two is replaced by
  \<open>****\<close>.
\<close>

theorem RemovePassword_redacts:
  "(CHR ''@'' \<notin> set uri \<longrightarrow> RemovePassword uri = Some uri) \<and>
   (CHR ''@'' \<in> set uri \<and>
    (\<forall>i. scheme_end uri \<le> i \<and> i < first_at uri \<longrightarrow> uri ! i \<noteq> CHR '':'') \<longrightarrow>
      RemovePassword uri = Some uri) \<and>
   (CHR ''@'' \<in> set uri \<and> scheme_end uri \<le> i \<and> i < first_at uri \<and> uri ! i = CHR '':'' \<and>
    (\<forall>j. scheme_end uri \<le> j \<and> j < i \<longrightarrow> uri ! j \<noteq> CHR '':'') \<longrightarrow>
      RemovePassword uri = Some (take i uri @ '':****'' @ drop (first_at uri) uri))"
proof (intro conjI impI)
  assume "CHR ''@'' \<notin> set uri"
  then show "RemovePassword uri = Some uri" by (rule RemovePassword_no_at)
next
  let ?sp = "scheme_end uri" and ?p = "first_at uri"
  let ?rest = "drop ?sp uri"
  let ?k = "?sp + length (takeWhile (\<lambda>x. x \<noteq> CHR '':'') ?rest)"
  assume a: "CHR ''@'' \<in> set uri \<and> (\<forall>i. ?sp \<le> i \<and> i < ?p \<longrightarrow> uri ! i \<noteq> CHR '':'')"
  have at: "uri ! ?p = CHR ''@''"
    using first_occurrence [of "CHR ''@''" uri] a by (simp add: first_at_def)
  have "CHR '':'' \<notin> set ?rest \<or> ?k > ?p"
  proof (cases "CHR '':'' \<in> set ?rest")
    case True
    from first_occurrence [OF True] have "uri ! ?k = CHR '':''"
      by (simp add: scheme_end_le)
    with a at have "\<not> ?k < ?p" "?k \<noteq> ?p" by auto
    then show ?thesis by simp
  next
    case False
    then show ?thesis by simp
  qed
  then show "RemovePassword uri = Some uri"
    using a by (auto simp: RemovePassword_at Let_def)
next
  let ?sp = "scheme_end uri" and ?p = "first_at uri"
  let ?rest = "drop ?sp uri"
  let ?n = "length (takeWhile (\<lambda>x. x \<noteq> CHR '':'') ?rest)"
  assume a: "CHR ''@'' \<in> set uri \<and> ?sp \<le> i \<and> i < ?p \<and> uri ! i = CHR '':'' \<and>
    (\<forall>j. ?sp \<le> j \<and> j < i \<longrightarrow> uri ! j \<noteq> CHR '':'')"
  have p_lt: "?p < length uri"
    using first_occurrence [of "CHR ''@''" uri] a by (simp add: first_at_def)
  have i_rest: "i - ?sp < length ?rest" "?rest ! (i - ?sp) = CHR '':''"
    using a p_lt by auto
  then have mem: "CHR '':'' \<in> set ?rest"
    by (metis nth_mem)
  from first_occurrence [OF mem]
  have n: "?n < length ?rest" "?rest ! ?n = CHR '':''" "\<forall>j < ?n. ?rest ! j \<noteq> CHR '':''"
    by blast+
  have "?n = i - ?sp"
  proof (rule ccontr)
    assume "?n \<noteq> i - ?sp"
    then consider "?n < i - ?sp" | "i - ?sp < ?n" by linarith
    then show False
    proof cases
      case 1
      then have "?sp \<le> ?sp + ?n \<and> ?sp + ?n < i" by simp
      with a have "uri ! (?sp + ?n) \<noteq> CHR '':''" by blast
      with n(2) show False by (simp add: scheme_end_le)
    next
      case 2
      with n(3) i_rest(2) show False by blast
    qed
  qed
  then have k: "?sp + ?n = i" using a by simp
  show "RemovePassword uri = Some (take i uri @ '':****'' @ drop ?p uri)"
    using a mem k by (simp add: RemovePassword_at Let_def)
qed

theorem RemovePassword_redacts_witness:
  "CHR ''@'' \<notin> set ''s://h:1'' \<and> RemovePassword ''s://h:1'' = Some ''s://h:1'' \<and>
   CHR ''@'' \<in> set ''s://u@h:1'' \<and> RemovePassword ''s://u@h:1'' = Some ''s://u@h:1'' \<and>
   CHR ''@'' \<in> set ''s://u:pw@h'' \<and> scheme_end ''s://u:pw@h'' = 4 \<and>
   first_at ''s://u:pw@h'' = 8 \<and> ''s://u:pw@h'' ! 5 = CHR '':'' \<and>
   RemovePassword ''s://u:pw@h'' = Some ''s://u:****@h''"
proof -
  have pos:
    "scheme_end ''s://u@h:1'' = 4" "first_at ''s://u@h:1'' = 5"
    "scheme_end ''s://u:pw@h'' = 4" "first_at ''s://u:pw@h'' = 8"
    by (simp_all add: scheme_end_def first_at_def Index_def)
  have only4: "\<And>j::nat. 4 \<le> j \<and> j < 5 \<Longrightarrow> j = 4" by arith
  have none: "\<forall>i. scheme_end ''s://u@h:1'' \<le> i \<and> i < first_at ''s://u@h:1'' \<longrightarrow>
      ''s://u@h:1'' ! i \<noteq> CHR '':''"
    unfolding pos using only4 by auto
  have least: "\<forall>j. scheme_end ''s://u:pw@h'' \<le> j \<and> j < 5 \<longrightarrow> ''s://u:pw@h'' ! j \<noteq> CHR '':''"
    unfolding pos using only4 by auto
  have mem: "CHR ''@'' \<notin> set ''s://h:1''" "CHR ''@'' \<in> set ''s://u@h:1''"
    "CHR ''@'' \<in> set ''s://u:pw@h''" "''s://u:pw@h'' ! 5 = CHR '':''"
    by simp_all
  have res: "take 5 ''s://u:pw@h'' @ '':****'' @ drop 8 ''s://u:pw@h'' = ''s://u:****@h''"
    by simp
  show ?thesis
    using mem pos none least res
      RemovePassword_redacts [where uri = "''s://h:1''"]
      RemovePassword_redacts [where uri = "''s://u@h:1''"]
      RemovePassword_redacts [where uri = "''s://u:pw@h''" and i = 5]
    by simp
qed

end
